theory Spec2Isabelle
  imports Main
begin

section \<open>Python values and exceptions\<close>

text \<open>
  The values that reach the logging classes as \<open>message\<close>, \<open>log_level\<close> and \<open>name\<close>
  arguments: \<open>None\<close>, booleans, integers, strings and lists of these. A string is
  a sequence of code points below 256.
\<close>

datatype pyval =
    PNone
  | PBool bool
  | PInt int
  | PStr string
  | PList "pyval list"

text \<open>
  The exception classes the code raises. \<open>Raise.error(msg, cls, ...)\<close> builds an
  exception of the class \<open>cls\<close> handed to it; \<open>AttributeError\<close> is what Python raises
  for a method call on \<open>None\<close>; \<open>SinkError\<close> is the failure of a sink's \<open>send\<close>.
\<close>

datatype error = TypeError | KeyError | ValueError | AttributeError | SinkError

text \<open>\<open>isinstance(v, str)\<close>\<close>

fun is_str :: "pyval \<Rightarrow> bool" where
  "is_str (PStr s) = True"
| "is_str v = False"

text \<open>Truth value of a value in a condition (\<open>if name\<close>).\<close>

fun py_bool :: "pyval \<Rightarrow> bool" where
  "py_bool PNone = False"
| "py_bool (PBool b) = b"
| "py_bool (PInt i) = (i \<noteq> 0)"
| "py_bool (PStr s) = (s \<noteq> [])"
| "py_bool (PList xs) = (xs \<noteq> [])"

subsection \<open>Formatting: \<open>f"{v}"\<close>\<close>

definition digit_char :: "nat \<Rightarrow> char" where
  "digit_char n = ''0123456789abcdef'' ! n"

fun nat_digits :: "nat \<Rightarrow> string" where
  "nat_digits n = (if n < 10 then [digit_char n] else nat_digits (n div 10) @ [digit_char (n mod 10)])"

declare nat_digits.simps [simp del]

definition int_str :: "int \<Rightarrow> string" where
  "int_str i = (if i < 0 then CHR ''-'' # nat_digits (nat (- i)) else nat_digits (nat i))"

text \<open>
  \<open>repr\<close> of a string: single quotes, unless the string holds a single quote and no
  double quote; the quote character and the backslash are escaped, tab, newline and
  carriage return are written \<open>\t\<close>, \<open>\n\<close>, \<open>\r\<close>, and every other code point that is
  not printable (below 32, 127 to 160, and 173) as \<open>\xNN\<close>.
\<close>

definition repr_quote :: "string \<Rightarrow> char" where
  "repr_quote s = (if CHR 0x27 \<in> set s \<and> CHR 0x22 \<notin> set s then CHR 0x22 else CHR 0x27)"

definition repr_char :: "char \<Rightarrow> char \<Rightarrow> string" where
  "repr_char quote c =
     (if c = quote \<or> c = CHR 0x5C then [CHR 0x5C, c]
      else if c = CHR 0x09 then [CHR 0x5C, CHR ''t'']
      else if c = CHR 0x0A then [CHR 0x5C, CHR ''n'']
      else if c = CHR 0x0D then [CHR 0x5C, CHR ''r'']
      else if (of_char c :: nat) < 32 \<or> (127 \<le> (of_char c :: nat) \<and> (of_char c :: nat) \<le> 160)
              \<or> (of_char c :: nat) = 173
        then [CHR 0x5C, CHR ''x'', digit_char (of_char c div 16), digit_char (of_char c mod 16)]
      else [c])"

definition str_repr :: "string \<Rightarrow> string" where
  "str_repr s = (let quote = repr_quote s in quote # concat (map (repr_char quote) s) @ [quote])"

fun join :: "string \<Rightarrow> string list \<Rightarrow> string" where
  "join sep [] = []"
| "join sep [x] = x"
| "join sep (x # y # ys) = x @ sep @ join sep (y # ys)"

fun py_repr :: "pyval \<Rightarrow> string" where
  "py_repr PNone = ''None''"
| "py_repr (PBool b) = (if b then ''True'' else ''False'')"
| "py_repr (PInt i) = int_str i"
| "py_repr (PStr s) = str_repr s"
| "py_repr (PList xs) = ''['' @ join '', '' (map py_repr xs) @ '']''"

text \<open>\<open>str(v)\<close>, which is what \<open>f"{v}"\<close> gives for these values.\<close>

fun py_str :: "pyval \<Rightarrow> string" where
  "py_str (PStr s) = s"
| "py_str v = py_repr v"

section \<open>\<open>base_logs.LogsLevelKeys\<close>\<close>

definition ALERT :: pyval where "ALERT = PStr ''ALERT''"
definition CRITICAL :: pyval where "CRITICAL = PStr ''CRITICAL''"
definition DEBUG :: pyval where "DEBUG = PStr ''DEBUG''"
definition EMERGENCY :: pyval where "EMERGENCY = PStr ''EMERGENCY''"
definition ERROR :: pyval where "ERROR = PStr ''ERROR''"
definition INFO :: pyval where "INFO = PStr ''INFO''"
definition NOTICE :: pyval where "NOTICE = PStr ''NOTICE''"
definition WARNING :: pyval where "WARNING = PStr ''WARNING''"

definition LogsLevelKeys_keys :: "pyval list" where
  "LogsLevelKeys_keys = [ALERT, CRITICAL, DEBUG, EMERGENCY, ERROR, INFO, NOTICE, WARNING]"

section \<open>\<open>base_logs.LoggerQueue\<close>\<close>

text \<open>
  The private list \<open>__queue\<close> of a \<open>LoggerQueue\<close>: each entry is the two-element list
  \<open>[log_level, message]\<close> that \<open>put\<close> appends. Every method returns its outcome together
  with the list as the call leaves it, so that a raise shows what it did before.
\<close>

type_synonym qitem = "pyval \<times> pyval"
type_synonym queue = "qitem list"

definition LoggerQueue_init :: queue where
  "LoggerQueue_init = []"

text \<open>\<open>get\<close>: \<open>pop(0)\<close>, with the \<open>IndexError\<close> of the empty list turned into \<open>None\<close>.\<close>

fun LoggerQueue_get :: "queue \<Rightarrow> qitem option \<times> queue" where
  "LoggerQueue_get [] = (None, [])"
| "LoggerQueue_get (x # q) = (Some x, q)"

text \<open>\<open>put(message, log_level)\<close>\<close>

definition LoggerQueue_put :: "pyval \<Rightarrow> pyval \<Rightarrow> queue \<Rightarrow> (error + unit) \<times> queue" where
  "LoggerQueue_put message log_level q =
     (if log_level \<notin> set LogsLevelKeys_keys then (Inl KeyError, q)
      else (Inr (), q @ [(log_level, message)]))"

section \<open>The objects and the world they live in\<close>

text \<open>
  \<open>LoggerQueue\<close> objects are shared by reference between a \<open>LoggerEngine\<close> and its
  clients, so they live in a heap indexed by address. The objects of the missing module
  \<open>logstool.engines\<close> are known by their class and their identity.
\<close>

datatype ILoggerEngine = ILoggerEngine (cls: string) (oid: nat)

text \<open>
  The world: the queues, the calls of a sink's \<open>send\<close> made so far, in call order (the
  call that raises included), and the behaviour of the sinks: \<open>raises w n e m\<close> says
  whether the call number \<open>n\<close> of a sink's \<open>send\<close>, made on the engine \<open>e\<close> with the
  message \<open>m\<close>, raises.
\<close>

record world =
  heap :: "nat \<Rightarrow> queue"
  sent :: "(ILoggerEngine \<times> pyval) list"
  raises :: "nat \<Rightarrow> ILoggerEngine \<Rightarrow> pyval \<Rightarrow> bool"

text \<open>
  Modelled from the spec: the module \<open>logstool.engines\<close> is not among the sources; a sink
  is "anything exposing send(text)", with no result, which "fails with SinkError on
  underlying I/O failure". A call of \<open>engine.send(message)\<close> is recorded as one invocation
  and raises \<open>SinkError\<close> when the sinks' behaviour says so.
\<close>

definition ILoggerEngine_send :: "ILoggerEngine \<Rightarrow> pyval \<Rightarrow> world \<Rightarrow> (error + unit) \<times> world" where
  "ILoggerEngine_send e message w =
     (if raises w (length (sent w)) e message
      then (Inl SinkError, w\<lparr>sent := sent w @ [(e, message)]\<rparr>)
      else (Inr (), w\<lparr>sent := sent w @ [(e, message)]\<rparr>))"

text \<open>
  The world in which every queue is empty, nothing has been sent and no sink ever raises,
  and the world that differs from it in that every call of a sink raises.
\<close>

definition empty_world :: world where
  "empty_world = \<lparr>heap = (\<lambda>a. LoggerQueue_init), sent = [], raises = (\<lambda>n e m. False)\<rparr>"

definition failing_world :: world where
  "failing_world = empty_world\<lparr>raises := (\<lambda>n e m. True)\<rparr>"

section \<open>\<open>logs.LoggerClient\<close>\<close>

record LoggerClient =
  lc_name :: pyval
  lc_logs_queue :: "nat option"

text \<open>
  The constructor: the \<open>name\<close> setter refuses a value that is true and not a string;
  \<open>logs_queue\<close> is set only when a queue is given.
\<close>

definition LoggerClient_init :: "nat option \<Rightarrow> pyval \<Rightarrow> error + LoggerClient" where
  "LoggerClient_init queue name =
     (if py_bool name \<and> \<not> is_str name then Inl TypeError
      else Inr \<lparr>lc_name = name, lc_logs_queue = queue\<rparr>)"

text \<open>The \<open>logs_queue\<close> setter of \<open>BLoggerQueue\<close>, given a \<open>LoggerQueue\<close>.\<close>

definition set_logs_queue :: "nat \<Rightarrow> LoggerClient \<Rightarrow> LoggerClient" where
  "set_logs_queue r c = c\<lparr>lc_logs_queue := Some r\<rparr>"

definition LoggerClient_message ::
  "LoggerClient \<Rightarrow> pyval \<Rightarrow> pyval \<Rightarrow> world \<Rightarrow> (error + unit) \<times> world" where
  "LoggerClient_message c message log_level w =
     (if \<not> is_str log_level then (Inl TypeError, w)
      else if log_level \<notin> set LogsLevelKeys_keys then (Inl KeyError, w)
      else
        let m1 = (if \<not> is_str message then PStr (py_str message) else message);
            m2 = (if lc_name c \<noteq> PNone
                  then PStr (''['' @ py_str (lc_name c) @ ''] '' @ py_str m1) else m1)
        in case lc_logs_queue c of
             None \<Rightarrow> (Inl AttributeError, w)
           | Some r \<Rightarrow>
               (case LoggerQueue_put m2 log_level (heap w r) of
                  (res, q) \<Rightarrow> (res, w\<lparr>heap := (heap w)(r := q)\<rparr>)))"

definition message_alert :: "LoggerClient \<Rightarrow> pyval \<Rightarrow> world \<Rightarrow> (error + unit) \<times> world" where
  "message_alert c message = LoggerClient_message c message ALERT"

definition message_critical :: "LoggerClient \<Rightarrow> pyval \<Rightarrow> world \<Rightarrow> (error + unit) \<times> world" where
  "message_critical c message = LoggerClient_message c message CRITICAL"

definition message_debug :: "LoggerClient \<Rightarrow> pyval \<Rightarrow> world \<Rightarrow> (error + unit) \<times> world" where
  "message_debug c message = LoggerClient_message c message DEBUG"

definition message_emergency :: "LoggerClient \<Rightarrow> pyval \<Rightarrow> world \<Rightarrow> (error + unit) \<times> world" where
  "message_emergency c message = LoggerClient_message c message EMERGENCY"

definition message_error :: "LoggerClient \<Rightarrow> pyval \<Rightarrow> world \<Rightarrow> (error + unit) \<times> world" where
  "message_error c message = LoggerClient_message c message ERROR"

definition message_info :: "LoggerClient \<Rightarrow> pyval \<Rightarrow> world \<Rightarrow> (error + unit) \<times> world" where
  "message_info c message = LoggerClient_message c message INFO"

definition message_notice :: "LoggerClient \<Rightarrow> pyval \<Rightarrow> world \<Rightarrow> (error + unit) \<times> world" where
  "message_notice c message = LoggerClient_message c message NOTICE"

definition message_warning :: "LoggerClient \<Rightarrow> pyval \<Rightarrow> world \<Rightarrow> (error + unit) \<times> world" where
  "message_warning c message = LoggerClient_message c message WARNING"

section \<open>\<open>logs.LoggerEngine\<close>\<close>

text \<open>
  A routing table is a Python dict from level to list of engines: an association list
  in insertion order. \<open>dict_set\<close> is \<open>d[k] = v\<close>.
\<close>

type_synonym table = "(pyval \<times> ILoggerEngine list) list"

fun dict_set :: "'k \<Rightarrow> 'v \<Rightarrow> ('k \<times> 'v) list \<Rightarrow> ('k \<times> 'v) list" where
  "dict_set k v [] = [(k, v)]"
| "dict_set k v ((k', v') # d) = (if k' = k then (k, v) # d else (k', v') # dict_set k v d)"

text \<open>
  \<open>le_conf\<close> is \<open>_data[Keys.CONF]\<close>, \<open>None\<close> while the key is absent; \<open>le_no_conf\<close> is
  \<open>_data[Keys.NO_CONF]\<close>; \<open>le_logs_queue\<close> is the address of the engine's own queue.
\<close>

record LoggerEngine =
  le_logs_queue :: nat
  le_conf :: "table option"
  le_no_conf :: table

definition LoggerEngineStdout :: "nat \<Rightarrow> ILoggerEngine" where
  "LoggerEngineStdout i = ILoggerEngine ''LoggerEngineStdout'' i"

definition LoggerEngineStderr :: "nat \<Rightarrow> ILoggerEngine" where
  "LoggerEngineStderr i = ILoggerEngine ''LoggerEngineStderr'' i"

text \<open>
  The constructor makes a new \<open>LoggerQueue\<close> (at the address \<open>r\<close>) and the default
  table; the eight engine objects it creates are numbered in creation order.
\<close>

definition LoggerEngine_init :: "nat \<Rightarrow> world \<Rightarrow> LoggerEngine \<times> world" where
  "LoggerEngine_init r w =
     (\<lparr>le_logs_queue = r,
       le_conf = None,
       le_no_conf =
         dict_set CRITICAL [LoggerEngineStdout 7, LoggerEngineStderr 8]
         (dict_set ERROR [LoggerEngineStdout 5, LoggerEngineStderr 6]
         (dict_set DEBUG [LoggerEngineStderr 4]
         (dict_set NOTICE [LoggerEngineStdout 3]
         (dict_set WARNING [LoggerEngineStdout 2]
         (dict_set INFO [LoggerEngineStdout 1] [])))))\<rparr>,
      w\<lparr>heap := (heap w)(r := LoggerQueue_init)\<rparr>)"

text \<open>The second argument of \<open>add_engine\<close>: an engine object, or anything else.\<close>

datatype pyobj = Obj_Engine ILoggerEngine | Obj_Other pyval

text \<open>
  The \<open>for i in range(0, len(...))\<close> loop of \<open>add_engine\<close>: every entry of the class
  of \<open>engine\<close> is overwritten, and \<open>test\<close> records whether one was.
\<close>

definition add_engine_loop ::
  "ILoggerEngine \<Rightarrow> ILoggerEngine list \<Rightarrow> ILoggerEngine list \<times> bool" where
  "add_engine_loop engine l =
     fold (\<lambda>i (l, test). if cls (l ! i) = cls engine then (l[i := engine], True) else (l, test))
       [0..<length l] (l, False)"

definition add_engine :: "pyval \<Rightarrow> pyobj \<Rightarrow> LoggerEngine \<Rightarrow> (error + unit) \<times> LoggerEngine" where
  "add_engine log_level engine s =
     (if \<not> is_str log_level then (Inl TypeError, s)
      else case engine of
        Obj_Other v \<Rightarrow> (Inl TypeError, s)
      | Obj_Engine e \<Rightarrow>
          (case le_conf s of
             None \<Rightarrow> (Inr (), s\<lparr>le_conf := Some (dict_set log_level [e] [])\<rparr>)
           | Some conf \<Rightarrow>
               (case map_of conf log_level of
                  None \<Rightarrow> (Inr (), s\<lparr>le_conf := Some (dict_set log_level [e] conf)\<rparr>)
                | Some l \<Rightarrow>
                    (case add_engine_loop e l of
                       (l', test) \<Rightarrow>
                         (Inr (), s\<lparr>le_conf :=
                            Some (dict_set log_level (if \<not> test then l' @ [e] else l') conf)\<rparr>)))))"

text \<open>Any finite sequence of \<open>add_engine\<close> calls; a call that raises leaves the engine as it was.\<close>

fun add_engines :: "(pyval \<times> pyobj) list \<Rightarrow> LoggerEngine \<Rightarrow> LoggerEngine" where
  "add_engines [] s = s"
| "add_engines ((log_level, engine) # calls) s = add_engines calls (snd (add_engine log_level engine s))"

text \<open>
  The shape of the custom table: the keys of the dict are distinct, and every level in
  it has a non-empty list of engines of pairwise distinct classes.
\<close>

definition conf_inv :: "LoggerEngine \<Rightarrow> bool" where
  "conf_inv s =
     (case le_conf s of
        None \<Rightarrow> True
      | Some conf \<Rightarrow>
          distinct (map fst conf) \<and> list_all (\<lambda>(k, l). l \<noteq> [] \<and> distinct (map cls l)) conf)"

text \<open>
  \<open>for item in list: engine.send(message)\<close>: the engines of the list are called in
  order; an exception of a call is not caught, so it ends the loop.
\<close>

fun send_all :: "ILoggerEngine list \<Rightarrow> pyval \<Rightarrow> world \<Rightarrow> (error + unit) \<times> world" where
  "send_all [] message w = (Inr (), w)"
| "send_all (engine # l) message w =
     (case ILoggerEngine_send engine message w of
        (Inl err, w') \<Rightarrow> (Inl err, w')
      | (Inr u, w') \<Rightarrow> send_all l message w')"

text \<open>The body of the loop of \<open>send\<close> for one item \<open>(log_level, message)\<close>.\<close>

definition send_item :: "LoggerEngine \<Rightarrow> qitem \<Rightarrow> world \<Rightarrow> (error + unit) \<times> world" where
  "send_item s item w =
     (case item of (log_level, message) \<Rightarrow>
        (case le_conf s of
           Some conf \<Rightarrow>
             if length conf > 0 then
               (case map_of conf log_level of
                  Some l \<Rightarrow> send_all l message w
                | None \<Rightarrow> (Inr (), w))
             else
               (case map_of (le_no_conf s) log_level of
                  Some l \<Rightarrow> send_all l message w
                | None \<Rightarrow> (Inr (), w))
         | None \<Rightarrow>
             (case map_of (le_no_conf s) log_level of
                Some l \<Rightarrow> send_all l message w
              | None \<Rightarrow> (Inr (), w))))"

text \<open>
  \<open>send\<close>: \<open>while True\<close>, until \<open>get\<close> returns \<open>None\<close>. Nothing catches the exception
  of a sink: it leaves \<open>send\<close>, with the item that was being sent already taken off
  the queue.
\<close>

function LoggerEngine_send :: "LoggerEngine \<Rightarrow> world \<Rightarrow> (error + unit) \<times> world" where
  "LoggerEngine_send s w =
     (case LoggerQueue_get (heap w (le_logs_queue s)) of
        (None, q) \<Rightarrow> (Inr (), w)
      | (Some item, q) \<Rightarrow>
          (case send_item s item (w\<lparr>heap := (heap w)(le_logs_queue s := q)\<rparr>) of
             (Inl err, w') \<Rightarrow> (Inl err, w')
           | (Inr u, w') \<Rightarrow> LoggerEngine_send s w'))"
  by pat_completeness auto
termination
  apply (relation "measure (\<lambda>(s, w). length (heap w (le_logs_queue s)))")
   apply simp
  subgoal premises p
  proof -
    have ih: "heap (snd (ILoggerEngine_send e m v)) = heap v" for e m v
      by (simp add: ILoggerEngine_send_def)
    have fh: "heap (snd (send_all l m v)) = heap v" for m l v
    proof (induction l arbitrary: v)
      case Nil
      show ?case by simp
    next
      case (Cons a l)
      show ?case
        using Cons[of "snd (ILoggerEngine_send a m v)"] ih[of a m v]
        by (cases "ILoggerEngine_send a m v") (auto split: sum.splits)
    qed
    have sh: "heap (snd (send_item s0 it v)) = heap v" for s0 it v
      by (cases it) (simp add: send_item_def fh split: option.splits)
    have gl: "length q < length q0" if "(Some it, q) = LoggerQueue_get q0" for it q q0
      using that by (cases q0) auto
    show ?thesis
      using p gl sh by (metis (no_types, lifting) fun_upd_same in_measure case_prod_conv snd_conv world.select_convs(1) world.surjective world.update_convs(1))
  qed
  done

declare LoggerEngine_send.simps [simp del]

section \<open>\<open>logs.ThLoggerProcessor\<close>\<close>

record ThLoggerProcessor =
  th_logger_engine :: "LoggerEngine option"
  th_logger_client :: "LoggerClient option"
  th_debug :: bool
  th_stop_event :: bool

text \<open>\<open>_c_name\<close>, the name of the object's class.\<close>

definition c_name :: string where
  "c_name = ''ThLoggerProcessor''"

text \<open>
  The thread that executes \<open>run\<close> is at one of these places of its body; \<open>Raised\<close> is
  the end by an exception, \<open>Returned\<close> the normal end.
\<close>

datatype place =
    At_Start
  | At_While
  | At_Send
  | At_Sleep
  | At_Stop_Message
  | At_Final_Send
  | Returned
  | Raised error

text \<open>
  The state of a run: the processor object, the place, the world, and the number of
  calls of \<open>logger_engine.send()\<close> made so far.
\<close>

record run_state =
  th :: ThLoggerProcessor
  place :: place
  wld :: world
  drains :: nat

text \<open>\<open>self.logger_client.message_debug = text\<close>, as \<open>run\<close> and \<open>stop\<close> write it.\<close>

definition debug_message :: "ThLoggerProcessor \<Rightarrow> string \<Rightarrow> world \<Rightarrow> (error + unit) \<times> world" where
  "debug_message t text w =
     (case th_logger_client t of
        None \<Rightarrow> (Inl AttributeError, w)
      | Some c \<Rightarrow> message_debug c (PStr (''['' @ c_name @ ''] '' @ text)) w)"

text \<open>
  \<open>self.logger_engine.send()\<close>, counted when it is called; \<open>run\<close> catches nothing,
  so an exception of the drain ends it.
\<close>

definition engine_send :: "run_state \<Rightarrow> place \<Rightarrow> run_state" where
  "engine_send s next =
     (case th_logger_engine (th s) of
        None \<Rightarrow> s\<lparr>place := Raised AttributeError\<rparr>
      | Some e \<Rightarrow>
          (case LoggerEngine_send e (wld s) of
             (Inl err, w) \<Rightarrow> s\<lparr>wld := w, drains := Suc (drains s), place := Raised err\<rparr>
           | (Inr u, w) \<Rightarrow> s\<lparr>wld := w, drains := Suc (drains s), place := next\<rparr>))"

text \<open>One step of \<open>run\<close>, statement by statement.\<close>

definition run_step :: "run_state \<Rightarrow> run_state" where
  "run_step s =
     (case place s of
        At_Start \<Rightarrow>
          if th_logger_engine (th s) = None then s\<lparr>place := Raised ValueError\<rparr>
          else if th_logger_client (th s) = None then s\<lparr>place := Raised ValueError\<rparr>
          else if th_debug (th s) then
            (case debug_message (th s) ''Start.'' (wld s) of
               (Inl e, w) \<Rightarrow> s\<lparr>wld := w, place := Raised e\<rparr>
             | (Inr u, w) \<Rightarrow> s\<lparr>wld := w, place := At_While\<rparr>)
          else s\<lparr>place := At_While\<rparr>
      | At_While \<Rightarrow>
          if \<not> th_stop_event (th s) then s\<lparr>place := At_Send\<rparr>
          else s\<lparr>place := At_Stop_Message\<rparr>
      | At_Send \<Rightarrow> engine_send s At_Sleep
      | At_Sleep \<Rightarrow> s\<lparr>place := At_While\<rparr>
      | At_Stop_Message \<Rightarrow>
          if th_debug (th s) then
            (case debug_message (th s) ''Stop.'' (wld s) of
               (Inl e, w) \<Rightarrow> s\<lparr>wld := w, place := Raised e\<rparr>
             | (Inr u, w) \<Rightarrow> s\<lparr>wld := w, place := At_Final_Send\<rparr>)
          else s\<lparr>place := At_Final_Send\<rparr>
      | At_Final_Send \<Rightarrow> engine_send s Returned
      | Returned \<Rightarrow> s
      | Raised e \<Rightarrow> s)"


text \<open>\<open>n\<close> steps of \<open>run\<close>.\<close>

fun run_steps :: "nat \<Rightarrow> run_state \<Rightarrow> run_state" where
  "run_steps 0 s = s"
| "run_steps (Suc n) s = run_steps n (run_step s)"


section \<open>Queue properties\<close>

lemma empty_world_simps [simp]:
  "heap empty_world = (\<lambda>a. [])" "sent empty_world = []" "raises empty_world = (\<lambda>n e m. False)"
  by (simp_all add: empty_world_def LoggerQueue_init_def)

lemma failing_world_simps [simp]:
  "heap failing_world = (\<lambda>a. [])" "sent failing_world = []" "raises failing_world = (\<lambda>n e m. True)"
  by (simp_all add: failing_world_def)

lemmas level_defs =
  ALERT_def CRITICAL_def DEBUG_def EMERGENCY_def ERROR_def INFO_def NOTICE_def WARNING_def

lemma keys_are_str: "v \<in> set LogsLevelKeys_keys \<Longrightarrow> is_str v"
  by (auto simp: LogsLevelKeys_keys_def level_defs)

text \<open>
  C6: for a valid severity S and any text T, on an empty queue, \<open>put\<close> followed by \<open>get\<close>
  returns the pair (S, T), and a second \<open>get\<close> on the now empty queue returns \<open>None\<close>
  and raises nothing.
\<close>

theorem put_get_roundtrip:
  assumes "S \<in> set LogsLevelKeys_keys"
  shows "\<exists>q1 q2. LoggerQueue_put T S LoggerQueue_init = (Inr (), q1)
           \<and> LoggerQueue_get q1 = (Some (S, T), q2)
           \<and> LoggerQueue_get q2 = (None, q2)"
  using assms by (simp add: LoggerQueue_put_def LoggerQueue_init_def)

theorem put_get_roundtrip_witness:
  "INFO \<in> set LogsLevelKeys_keys
   \<and> (\<exists>q1 q2. LoggerQueue_put (PStr ''ready'') INFO LoggerQueue_init = (Inr (), q1)
           \<and> LoggerQueue_get q1 = (Some (INFO, PStr ''ready''), q2)
           \<and> LoggerQueue_get q2 = (None, q2))"
proof -
  have h: "INFO \<in> set LogsLevelKeys_keys"
    by (simp add: LogsLevelKeys_keys_def)
  show ?thesis
    using h put_get_roundtrip [OF h, of "PStr ''ready''"] by simp
qed

section \<open>Client properties\<close>

lemma coerce_str: "(if \<not> is_str m then PStr (py_str m) else m) = PStr (py_str m)"
  by (cases m) auto

lemma message_bound:
  assumes "lc_logs_queue c = Some r" "level \<in> set LogsLevelKeys_keys"
  shows "LoggerClient_message c text level w =
     (Inr (), w\<lparr>heap := (heap w)(r := heap w r @
        [(level, PStr ((if lc_name c \<noteq> PNone then ''['' @ py_str (lc_name c) @ ''] '' else []) @ py_str text))])\<rparr>)"
  using assms keys_are_str[OF assms(2)]
  by (simp add: LoggerClient_message_def LoggerQueue_put_def coerce_str Let_def)

lemma keys_mem:
  "ALERT \<in> set LogsLevelKeys_keys" "CRITICAL \<in> set LogsLevelKeys_keys"
  "DEBUG \<in> set LogsLevelKeys_keys" "EMERGENCY \<in> set LogsLevelKeys_keys"
  "ERROR \<in> set LogsLevelKeys_keys" "INFO \<in> set LogsLevelKeys_keys"
  "NOTICE \<in> set LogsLevelKeys_keys" "WARNING \<in> set LogsLevelKeys_keys"
  by (simp_all add: LogsLevelKeys_keys_def)

lemmas message_level_defs =
  message_alert_def message_critical_def message_debug_def message_emergency_def
  message_error_def message_info_def message_notice_def message_warning_def

lemma message_unbound:
  assumes "lc_logs_queue c = None" "level \<in> set LogsLevelKeys_keys"
  shows "LoggerClient_message c text level w = (Inl AttributeError, w)"
  using assms keys_are_str[OF assms(2)] by (simp add: LoggerClient_message_def Let_def)

text \<open>
  C5: for every queue state and every level value V that is not one of the eight keys,
  \<open>put(text, V)\<close> on the queue and \<open>message(text, V)\<close> on a client fail (\<open>KeyError\<close>;
  \<open>TypeError\<close> from \<open>message\<close> when V is not a string), and the queue is exactly what it
  was before the call.
\<close>

theorem invalid_level_rejected:
  assumes "V \<notin> set LogsLevelKeys_keys"
  shows "LoggerQueue_put text V q = (Inl KeyError, q)
       \<and> LoggerClient_message c text V w = (Inl (if is_str V then KeyError else TypeError), w)"
  using assms by (simp add: LoggerQueue_put_def LoggerClient_message_def)

theorem invalid_level_rejected_witness:
  "PStr ''TRACE'' \<notin> set LogsLevelKeys_keys
   \<and> LoggerQueue_put (PStr ''x'') (PStr ''TRACE'') [(INFO, PStr ''a'')] = (Inl KeyError, [(INFO, PStr ''a'')])
   \<and> LoggerClient_message \<lparr>lc_name = PNone, lc_logs_queue = Some 0\<rparr> (PStr ''x'') (PStr ''TRACE'')
        (empty_world\<lparr>heap := (\<lambda>a. [(INFO, PStr ''a'')])\<rparr>)
      = (Inl KeyError, (empty_world\<lparr>heap := (\<lambda>a. [(INFO, PStr ''a'')])\<rparr>))"
proof -
  have h: "PStr ''TRACE'' \<notin> set LogsLevelKeys_keys"
    by (simp add: LogsLevelKeys_keys_def level_defs)
  show ?thesis
    using h invalid_level_rejected [OF h, of "PStr ''x''" "[(INFO, PStr ''a'')]"
        "\<lparr>lc_name = PNone, lc_logs_queue = Some 0\<rparr>" "(empty_world\<lparr>heap := (\<lambda>a. [(INFO, PStr ''a'')])\<rparr>)"]
    by simp
qed

text \<open>
  C8: for a client named \<open>n\<close> and bound to a queue, \<open>message(text, level)\<close> with a valid
  level appends to that queue exactly the item \<open>(level, "[n] text")\<close>; the client named
  "db" that sends "ready" at INFO to an empty queue leaves the single item
  \<open>(INFO, "[db] ready")\<close>.
\<close>

theorem named_client_prefix:
  assumes "lc_name c = PStr n" "lc_logs_queue c = Some r" "level \<in> set LogsLevelKeys_keys"
  shows "LoggerClient_message c text level w =
     (Inr (), w\<lparr>heap := (heap w)(r := heap w r @ [(level, PStr (''['' @ n @ ''] '' @ py_str text))])\<rparr>)"
  using message_bound[OF assms(2,3), of "text" w] assms(1) by simp

theorem named_client_prefix_witness:
  "LoggerClient_init (Some 0) (PStr ''db'') = Inr \<lparr>lc_name = PStr ''db'', lc_logs_queue = Some 0\<rparr>
   \<and> INFO \<in> set LogsLevelKeys_keys
   \<and> heap (snd (message_info \<lparr>lc_name = PStr ''db'', lc_logs_queue = Some 0\<rparr> (PStr ''ready'')
        empty_world)) 0 = [(INFO, PStr ''[db] ready'')]"
proof -
  have h: "INFO \<in> set LogsLevelKeys_keys"
    by (simp add: LogsLevelKeys_keys_def)
  show ?thesis
    using h named_client_prefix [of "\<lparr>lc_name = PStr ''db'', lc_logs_queue = Some 0\<rparr>" "''db''" 0 INFO
        "PStr ''ready''" "empty_world"]
    by (simp add: message_info_def LoggerClient_init_def)
qed

text \<open>
  C9: constructing a client without a queue succeeds; on such a client \<open>message\<close> with a
  valid level, and each per-level operation, fails (with the \<open>AttributeError\<close> of the call on
  \<open>None\<close>) and changes nothing; once a queue is attached the same calls succeed and
  enqueue one item.
\<close>

theorem unbound_client_fails:
  assumes "\<not> py_bool name \<or> is_str name" "level \<in> set LogsLevelKeys_keys"
  shows "\<exists>c. LoggerClient_init None name = Inr c \<and> lc_logs_queue c = None
           \<and> LoggerClient_message c text level w = (Inl AttributeError, w)
           \<and> list_all (\<lambda>op. op c text w = (Inl AttributeError, w))
                [message_alert, message_critical, message_debug, message_emergency,
                 message_error, message_info, message_notice, message_warning]
           \<and> (\<exists>w'. LoggerClient_message (set_logs_queue r c) text level w = (Inr (), w')
                  \<and> length (heap w' r) = Suc (length (heap w r)))
           \<and> list_all (\<lambda>op. \<exists>w'. op (set_logs_queue r c) text w = (Inr (), w')
                  \<and> length (heap w' r) = Suc (length (heap w r)))
                [message_alert, message_critical, message_debug, message_emergency,
                 message_error, message_info, message_notice, message_warning]"
proof -
  let ?c = "\<lparr>lc_name = name, lc_logs_queue = None\<rparr>"
  have 1: "LoggerClient_init None name = Inr ?c"
    using assms(1) by (auto simp: LoggerClient_init_def)
  have u: "lc_logs_queue ?c = None"
    by simp
  have 3: "lc_logs_queue (set_logs_queue r ?c) = Some r"
    by (simp add: set_logs_queue_def)
  have 4: "list_all (\<lambda>op. op ?c text w = (Inl AttributeError, w))
                [message_alert, message_critical, message_debug, message_emergency,
                 message_error, message_info, message_notice, message_warning]"
    by (simp add: message_level_defs message_unbound[OF u] keys_mem)
  have 5: "list_all (\<lambda>op. \<exists>w'. op (set_logs_queue r ?c) text w = (Inr (), w')
                  \<and> length (heap w' r) = Suc (length (heap w r)))
                [message_alert, message_critical, message_debug, message_emergency,
                 message_error, message_info, message_notice, message_warning]"
    by (simp add: message_level_defs message_bound[OF 3] keys_mem)
  show ?thesis
    using 1 4 5 message_unbound[OF u assms(2), of "text" w] message_bound[OF 3 assms(2), of "text" w]
    by simp
qed

theorem unbound_client_fails_witness:
  "\<not> py_bool PNone \<and> ERROR \<in> set LogsLevelKeys_keys
   \<and> LoggerClient_init None PNone = Inr \<lparr>lc_name = PNone, lc_logs_queue = None\<rparr>
   \<and> message_error \<lparr>lc_name = PNone, lc_logs_queue = None\<rparr> (PStr ''x'') empty_world
       = (Inl AttributeError, empty_world)
   \<and> heap (snd (message_error (set_logs_queue 0 \<lparr>lc_name = PNone, lc_logs_queue = None\<rparr>) (PStr ''x'')
        empty_world)) 0 = [(ERROR, PStr ''x'')]"
proof -
  have h: "\<not> py_bool PNone \<or> is_str PNone" "ERROR \<in> set LogsLevelKeys_keys"
    by (simp_all add: LogsLevelKeys_keys_def)
  obtain c where c: "LoggerClient_init None PNone = Inr c"
      "message_error c (PStr ''x'') empty_world
         = (Inl AttributeError, empty_world)"
    using unbound_client_fails [OF h, of "PStr ''x''" "empty_world" 0]
    by auto
  have "c = \<lparr>lc_name = PNone, lc_logs_queue = None\<rparr>"
    using c(1) by (simp add: LoggerClient_init_def)
  then show ?thesis
    using h c
    by (simp add: message_error_def LoggerClient_message_def LoggerQueue_put_def
        set_logs_queue_def LoggerClient_init_def level_defs)
qed

text \<open>
  C4, as claimed, fails: the unnamed client's \<open>error(["disk full", "retrying"])\<close> on an
  empty queue leaves one item, whose text is the formatted list, not the two items
  \<open>(ERROR, "disk full")\<close>, \<open>(ERROR, "retrying")\<close>.
\<close>

theorem list_message_two_items_counterexample:
  "heap (snd (message_error \<lparr>lc_name = PNone, lc_logs_queue = Some 0\<rparr>
            (PList [PStr ''disk full'', PStr ''retrying''])
            empty_world)) 0
     = [(ERROR, PStr (''['' @ [CHR 0x27] @ ''disk full'' @ [CHR 0x27] @ '', ''
                   @ [CHR 0x27] @ ''retrying'' @ [CHR 0x27] @ '']''))]
   \<and> heap (snd (message_error \<lparr>lc_name = PNone, lc_logs_queue = Some 0\<rparr>
            (PList [PStr ''disk full'', PStr ''retrying''])
            empty_world)) 0
     \<noteq> [(ERROR, PStr ''disk full''), (ERROR, PStr ''retrying'')]"
  by (simp add: message_error_def LoggerClient_message_def LoggerQueue_put_def
        LogsLevelKeys_keys_def level_defs str_repr_def repr_quote_def repr_char_def Let_def)

text \<open>
  C4, amended: on a client bound to a queue, each per-level operation takes one value,
  formats it to its text when it is not a string (a list becomes the text of the list),
  prefixes the name if there is one, and appends exactly one item of the operation's
  level to the queue.
\<close>

theorem per_level_single_item:
  assumes "lc_logs_queue c = Some r"
  shows "list_all (\<lambda>(op, level).
            op c message w =
              (Inr (), w\<lparr>heap := (heap w)(r := heap w r @
                 [(level, PStr ((if lc_name c \<noteq> PNone then ''['' @ py_str (lc_name c) @ ''] '' else [])
                                @ py_str message))])\<rparr>))
          [(message_alert, ALERT), (message_critical, CRITICAL), (message_debug, DEBUG),
           (message_emergency, EMERGENCY), (message_error, ERROR), (message_info, INFO),
           (message_notice, NOTICE), (message_warning, WARNING)]"
  by (simp add: message_level_defs message_bound[OF assms] keys_mem)

theorem per_level_single_item_witness:
  "lc_logs_queue \<lparr>lc_name = PNone, lc_logs_queue = Some 0\<rparr> = Some 0
   \<and> message_error \<lparr>lc_name = PNone, lc_logs_queue = Some 0\<rparr> (PList [PStr ''disk full'', PStr ''retrying''])
        empty_world
     = (Inr (), empty_world\<lparr>heap := (heap empty_world)(0 :=
          [(ERROR, PStr (py_str (PList [PStr ''disk full'', PStr ''retrying''])))])\<rparr>)"
proof -
  have h: "lc_logs_queue \<lparr>lc_name = PNone, lc_logs_queue = Some 0\<rparr> = Some 0"
    by simp
  show ?thesis
    using h per_level_single_item [OF h, of "PList [PStr ''disk full'', PStr ''retrying'']"
        "empty_world"]
    by simp
qed

section \<open>Dispatch properties\<close>



lemma send_all_ok:
  assumes "\<forall>i < length l. \<not> raises v (length (sent v) + i) (l ! i) message"
  shows "send_all l message v = (Inr (), v\<lparr>sent := sent v @ map (\<lambda>e. (e, message)) l\<rparr>)"
  using assms
proof (induction l arbitrary: v)
  case Nil
  show ?case by simp
next
  case (Cons a l)
  let ?v = "v\<lparr>sent := sent v @ [(a, message)]\<rparr>"
  have 0: "\<not> raises v (length (sent v)) a message"
    using Cons.prems by force
  have "\<forall>i < length l. \<not> raises ?v (length (sent ?v) + i) (l ! i) message"
  proof (intro allI impI)
    fix i assume "i < length l"
    then have "\<not> raises v (length (sent v) + Suc i) ((a # l) ! Suc i) message"
      using Cons.prems by (metis Suc_less_eq length_Cons)
    then show "\<not> raises ?v (length (sent ?v) + i) (l ! i) message"
      by simp
  qed
  from Cons.IH[OF this] show ?case
    using 0 by (simp add: ILoggerEngine_send_def)
qed

lemma send_all_fail:
  assumes "i < length l" "raises v (length (sent v) + i) (l ! i) message"
    and "\<forall>j < i. \<not> raises v (length (sent v) + j) (l ! j) message"
  shows "send_all l message v
       = (Inl SinkError, v\<lparr>sent := sent v @ map (\<lambda>e. (e, message)) (take (Suc i) l)\<rparr>)"
  using assms
proof (induction l arbitrary: v i)
  case Nil
  then show ?case by simp
next
  case (Cons a l)
  show ?case
  proof (cases i)
    case 0
    then show ?thesis
      using Cons.prems by (simp add: ILoggerEngine_send_def)
  next
    case (Suc k)
    let ?v = "v\<lparr>sent := sent v @ [(a, message)]\<rparr>"
    have 0: "\<not> raises v (length (sent v)) a message"
      using Cons.prems(3) Suc by force
    have 1: "k < length l"
      using Cons.prems(1) Suc by simp
    have 2: "raises ?v (length (sent ?v) + k) (l ! k) message"
      using Cons.prems(2) Suc by simp
    have 3: "\<forall>j < k. \<not> raises ?v (length (sent ?v) + j) (l ! j) message"
    proof (intro allI impI)
      fix j assume "j < k"
      then have "\<not> raises v (length (sent v) + Suc j) ((a # l) ! Suc j) message"
        using Cons.prems(3) Suc by (metis Suc_less_eq)
      then show "\<not> raises ?v (length (sent ?v) + j) (l ! j) message"
        by simp
    qed
    from Cons.IH[OF 1 2 3] show ?thesis
      using 0 Suc by (simp add: ILoggerEngine_send_def)
  qed
qed


lemma send_empty: "heap w (le_logs_queue s) = [] \<Longrightarrow> LoggerEngine_send s w = (Inr (), w)"
  by (subst LoggerEngine_send.simps) simp

lemma send_cons:
  "heap w (le_logs_queue s) = item # q \<Longrightarrow>
   LoggerEngine_send s w =
     (case send_item s item (w\<lparr>heap := (heap w)(le_logs_queue s := q)\<rparr>) of
        (Inl err, w') \<Rightarrow> (Inl err, w')
      | (Inr u, w') \<Rightarrow> LoggerEngine_send s w')"
  by (subst LoggerEngine_send.simps) simp

lemma drain_ok:
  assumes R: "\<And>level message v. send_item s (level, message) v = send_all (R level) message v"
    and "heap w (le_logs_queue s) = q"
    and "calls = concat (map (\<lambda>(level, message). map (\<lambda>e. (e, message)) (R level)) q)"
    and "\<forall>i < length calls. \<not> raises w (length (sent w) + i) (fst (calls ! i)) (snd (calls ! i))"
  shows "LoggerEngine_send s w
       = (Inr (), w\<lparr>heap := (heap w)(le_logs_queue s := []), sent := sent w @ calls\<rparr>)"
  using assms(2-)
proof (induction q arbitrary: w calls)
  case Nil
  then have "(heap w)(le_logs_queue s := []) = heap w"
    by (auto simp: fun_eq_iff)
  then show ?case
    using Nil by (simp add: send_empty)
next
  case (Cons item q)
  obtain level message where item: "item = (level, message)"
    by (cases item)
  let ?A = "map (\<lambda>e. (e, message)) (R level)"
  let ?B = "concat (map (\<lambda>(level, message). map (\<lambda>e. (e, message)) (R level)) q)"
  let ?w1 = "w\<lparr>heap := (heap w)(le_logs_queue s := q)\<rparr>"
  let ?w2 = "?w1\<lparr>sent := sent ?w1 @ ?A\<rparr>"
  have calls: "calls = ?A @ ?B"
    using Cons.prems(2) item by simp
  have a: "\<forall>i < length (R level). \<not> raises ?w1 (length (sent ?w1) + i) (R level ! i) message"
  proof (intro allI impI)
    fix i assume i: "i < length (R level)"
    then have "i < length calls" "calls ! i = (R level ! i, message)"
      by (simp_all add: calls nth_append)
    then show "\<not> raises ?w1 (length (sent ?w1) + i) (R level ! i) message"
      using Cons.prems(3) by force
  qed
  have 1: "send_item s item ?w1 = (Inr (), ?w2)"
    unfolding item R by (rule send_all_ok[OF a])
  have b: "\<forall>i < length ?B. \<not> raises ?w2 (length (sent ?w2) + i) (fst (?B ! i)) (snd (?B ! i))"
  proof (intro allI impI)
    fix i assume i: "i < length ?B"
    then have "length ?A + i < length calls" "calls ! (length ?A + i) = ?B ! i"
      by (simp_all add: calls nth_append)
    then have "\<not> raises w (length (sent w) + (length ?A + i)) (fst (?B ! i)) (snd (?B ! i))"
      using Cons.prems(3) by metis
    then show "\<not> raises ?w2 (length (sent ?w2) + i) (fst (?B ! i)) (snd (?B ! i))"
      by (simp add: add.assoc)
  qed
  have h2: "heap ?w2 (le_logs_queue s) = q"
    by simp
  have "LoggerEngine_send s w = LoggerEngine_send s ?w2"
    using Cons.prems(1) by (simp add: send_cons 1)
  also have "\<dots> = (Inr (), ?w2\<lparr>heap := (heap ?w2)(le_logs_queue s := []), sent := sent ?w2 @ ?B\<rparr>)"
    by (rule Cons.IH[OF h2 refl b])
  also have "\<dots> = (Inr (), w\<lparr>heap := (heap w)(le_logs_queue s := []), sent := sent w @ calls\<rparr>)"
    by (simp add: calls)
  finally show ?case .
qed

lemma drain_fail:
  assumes R: "\<And>level message v. send_item s (level, message) v = send_all (R level) message v"
    and "heap w (le_logs_queue s) = q"
    and "calls = concat (map (\<lambda>(level, message). map (\<lambda>e. (e, message)) (R level)) q)"
    and "i < length calls"
    and "raises w (length (sent w) + i) (fst (calls ! i)) (snd (calls ! i))"
    and "\<forall>j < i. \<not> raises w (length (sent w) + j) (fst (calls ! j)) (snd (calls ! j))"
  shows "fst (LoggerEngine_send s w) = Inl SinkError
       \<and> sent (snd (LoggerEngine_send s w)) = sent w @ take (Suc i) calls"
  using assms(2-)
proof (induction q arbitrary: w calls i)
  case Nil
  then show ?case by simp
next
  case (Cons item q)
  obtain level message where item: "item = (level, message)"
    by (cases item)
  let ?A = "map (\<lambda>e. (e, message)) (R level)"
  let ?B = "concat (map (\<lambda>(level, message). map (\<lambda>e. (e, message)) (R level)) q)"
  let ?w1 = "w\<lparr>heap := (heap w)(le_logs_queue s := q)\<rparr>"
  let ?w2 = "?w1\<lparr>sent := sent ?w1 @ ?A\<rparr>"
  have calls: "calls = ?A @ ?B"
    using Cons.prems(2) item by simp
  show ?case
  proof (cases "i < length (R level)")
    case True
    have ci: "\<And>j. j \<le> i \<Longrightarrow> calls ! j = (R level ! j, message)"
      using True by (simp add: calls nth_append)
    have 2: "raises ?w1 (length (sent ?w1) + i) (R level ! i) message"
      using Cons.prems(4) ci[of i] by simp
    have 3: "\<forall>j < i. \<not> raises ?w1 (length (sent ?w1) + j) (R level ! j) message"
    proof (intro allI impI)
      fix j assume "j < i"
      then show "\<not> raises ?w1 (length (sent ?w1) + j) (R level ! j) message"
        using Cons.prems(5) ci[of j] by force
    qed
    have "send_item s item ?w1
        = (Inl SinkError, ?w1\<lparr>sent := sent ?w1 @ map (\<lambda>e. (e, message)) (take (Suc i) (R level))\<rparr>)"
      unfolding item R by (rule send_all_fail[OF True 2 3])
    moreover have "take (Suc i) calls = map (\<lambda>e. (e, message)) (take (Suc i) (R level))"
      using True by (simp add: calls take_map)
    ultimately show ?thesis
      using Cons.prems(1) by (simp add: send_cons)
  next
    case False
    define k where "k = i - length (R level)"
    have i: "i = length ?A + k"
      using False by (simp add: k_def)
    have a: "\<forall>j < length (R level). \<not> raises ?w1 (length (sent ?w1) + j) (R level ! j) message"
    proof (intro allI impI)
      fix j assume j: "j < length (R level)"
      then have "j < i" "calls ! j = (R level ! j, message)"
        using False by (simp_all add: calls nth_append)
      then show "\<not> raises ?w1 (length (sent ?w1) + j) (R level ! j) message"
        using Cons.prems(5) by force
    qed
    have 1: "send_item s item ?w1 = (Inr (), ?w2)"
      unfolding item R by (rule send_all_ok[OF a])
    have h2: "heap ?w2 (le_logs_queue s) = q"
      by simp
    have k: "k < length ?B"
      using Cons.prems(3) by (simp add: calls i)
    have ck: "\<And>j. calls ! (length (R level) + j) = ?B ! j"
      by (simp add: calls nth_append)
    have 2: "raises ?w2 (length (sent ?w2) + k) (fst (?B ! k)) (snd (?B ! k))"
      using Cons.prems(4) ck[of k] by (simp add: i add.assoc)
    have 3: "\<forall>j < k. \<not> raises ?w2 (length (sent ?w2) + j) (fst (?B ! j)) (snd (?B ! j))"
    proof (intro allI impI)
      fix j assume "j < k"
      then have "length ?A + j < i"
        by (simp add: i)
      then have "\<not> raises w (length (sent w) + (length ?A + j)) (fst (calls ! (length ?A + j))) (snd (calls ! (length ?A + j)))"
        using Cons.prems(5) by blast
      then show "\<not> raises ?w2 (length (sent ?w2) + j) (fst (?B ! j)) (snd (?B ! j))"
        by (simp add: ck add.assoc)
    qed
    have e: "LoggerEngine_send s w = LoggerEngine_send s ?w2"
      using Cons.prems(1) by (simp add: send_cons 1)
    have t: "take (Suc i) calls = ?A @ take (Suc k) ?B"
      by (simp add: calls i)
    show ?thesis
      using Cons.IH[OF h2 refl k 2 3] by (simp add: e t)
  qed
qed


lemma send_item_custom:
  assumes "le_conf s = Some conf" "conf \<noteq> []"
  shows "send_item s (level, message) v
       = send_all (case map_of conf level of None \<Rightarrow> [] | Some l \<Rightarrow> l) message v"
  using assms by (simp add: send_item_def split: option.splits)

lemma send_item_default:
  assumes "le_conf s = None"
  shows "send_item s (level, message) v
       = send_all (case map_of (le_no_conf s) level of None \<Rightarrow> [] | Some l \<Rightarrow> l) message v"
  using assms by (simp add: send_item_def split: option.splits)

lemma init_fields:
  "le_conf (fst (LoggerEngine_init r w)) = None"
  "le_logs_queue (fst (LoggerEngine_init r w)) = r"
  "le_no_conf (fst (LoggerEngine_init r w)) =
     [(INFO, [LoggerEngineStdout 1]), (WARNING, [LoggerEngineStdout 2]),
      (NOTICE, [LoggerEngineStdout 3]), (DEBUG, [LoggerEngineStderr 4]),
      (ERROR, [LoggerEngineStdout 5, LoggerEngineStderr 6]),
      (CRITICAL, [LoggerEngineStdout 7, LoggerEngineStderr 8])]"
  by (simp_all add: LoggerEngine_init_def level_defs)

text \<open>
  C1: in every engine state whose custom table has at least one entry, a drain routes
  every queued item by the custom table alone: the calls of sinks it makes are, item by
  item in queue order, the message sent to the engines that the custom table lists for
  the item's level, and nothing for an item whose level is not a key of the custom
  table, whatever the default table holds for that level. When none of these calls
  raises, the drain makes all of them and empties the queue; the first call that raises
  ends the drain with \<open>SinkError\<close>, after exactly the calls up to it. After one
  \<open>add_engine(ERROR, sinkA)\<close> on a new engine a DEBUG item reaches no sink, although the
  default table has an entry for DEBUG.
\<close>

theorem custom_table_exclusive:
  assumes "le_conf s = Some conf" "conf \<noteq> []"
    and "calls = concat (map (\<lambda>(level, message). map (\<lambda>e. (e, message))
                    (case map_of conf level of None \<Rightarrow> [] | Some l \<Rightarrow> l))
                  (heap w (le_logs_queue s)))"
  shows "((\<forall>i < length calls. \<not> raises w (length (sent w) + i) (fst (calls ! i)) (snd (calls ! i))) \<longrightarrow>
            LoggerEngine_send s w
              = (Inr (), w\<lparr>heap := (heap w)(le_logs_queue s := []), sent := sent w @ calls\<rparr>))
       \<and> (\<forall>i < length calls.
            raises w (length (sent w) + i) (fst (calls ! i)) (snd (calls ! i))
            \<and> (\<forall>j < i. \<not> raises w (length (sent w) + j) (fst (calls ! j)) (snd (calls ! j))) \<longrightarrow>
            fst (LoggerEngine_send s w) = Inl SinkError
            \<and> sent (snd (LoggerEngine_send s w)) = sent w @ take (Suc i) calls)"
proof (intro conjI allI impI)
  assume "\<forall>i < length calls. \<not> raises w (length (sent w) + i) (fst (calls ! i)) (snd (calls ! i))"
  then show "LoggerEngine_send s w
      = (Inr (), w\<lparr>heap := (heap w)(le_logs_queue s := []), sent := sent w @ calls\<rparr>)"
    by (rule drain_ok[OF send_item_custom[OF assms(1,2)] refl assms(3)])
next
  fix i
  assume i: "i < length calls"
    and r: "raises w (length (sent w) + i) (fst (calls ! i)) (snd (calls ! i))
            \<and> (\<forall>j < i. \<not> raises w (length (sent w) + j) (fst (calls ! j)) (snd (calls ! j)))"
  have f: "fst (LoggerEngine_send s w) = Inl SinkError
       \<and> sent (snd (LoggerEngine_send s w)) = sent w @ take (Suc i) calls"
    using r by (intro drain_fail[OF send_item_custom[OF assms(1,2)] refl assms(3) i]) simp_all
  from f show "fst (LoggerEngine_send s w) = Inl SinkError" ..
  from f show "sent (snd (LoggerEngine_send s w)) = sent w @ take (Suc i) calls" ..
qed

theorem custom_table_exclusive_witness:
  "(let s0 = fst (LoggerEngine_init 0 empty_world);
        s = snd (add_engine ERROR (Obj_Engine (ILoggerEngine ''LoggerEngineSyslog'' 20)) s0);
        q = [(ERROR, PStr ''e''), (DEBUG, PStr ''d'')];
        w = empty_world\<lparr>heap := (heap empty_world)(0 := q)\<rparr>;
        v = failing_world\<lparr>heap := (heap failing_world)(0 := q)\<rparr>
    in le_conf s = Some [(ERROR, [ILoggerEngine ''LoggerEngineSyslog'' 20])]
       \<and> [(ERROR, [ILoggerEngine ''LoggerEngineSyslog'' 20])] \<noteq> []
       \<and> heap w (le_logs_queue s) = q \<and> heap v (le_logs_queue s) = q
       \<and> map_of (le_no_conf s) DEBUG = Some [LoggerEngineStderr 4]
       \<and> LoggerEngine_send s w
           = (Inr (), w\<lparr>heap := (heap w)(0 := []),
                        sent := [(ILoggerEngine ''LoggerEngineSyslog'' 20, PStr ''e'')]\<rparr>)
       \<and> fst (LoggerEngine_send s v) = Inl SinkError
       \<and> sent (snd (LoggerEngine_send s v)) = [(ILoggerEngine ''LoggerEngineSyslog'' 20, PStr ''e'')])"
proof -
  let ?s0 = "fst (LoggerEngine_init 0 empty_world)"
  let ?s = "snd (add_engine ERROR (Obj_Engine (ILoggerEngine ''LoggerEngineSyslog'' 20)) ?s0)"
  let ?q = "[(ERROR, PStr ''e''), (DEBUG, PStr ''d'')]"
  let ?w = "empty_world\<lparr>heap := (heap empty_world)(0 := ?q)\<rparr>"
  let ?v = "failing_world\<lparr>heap := (heap failing_world)(0 := ?q)\<rparr>"
  let ?conf = "[(ERROR, [ILoggerEngine ''LoggerEngineSyslog'' 20])]"
  let ?calls = "[(ILoggerEngine ''LoggerEngineSyslog'' 20, PStr ''e'')]"
  have q: "le_logs_queue ?s = 0"
    by (simp add: LoggerEngine_init_def add_engine_def level_defs)
  have 1: "le_conf ?s = Some ?conf"
    by (simp add: LoggerEngine_init_def add_engine_def level_defs)
  have 2: "?conf \<noteq> []"
    by simp
  have 3: "?calls = concat (map (\<lambda>(level, message). map (\<lambda>e. (e, message))
                    (case map_of ?conf level of None \<Rightarrow> [] | Some l \<Rightarrow> l))
                  (heap ?w (le_logs_queue ?s)))"
    unfolding q by (simp add: level_defs)
  have 5: "?calls = concat (map (\<lambda>(level, message). map (\<lambda>e. (e, message))
                    (case map_of ?conf level of None \<Rightarrow> [] | Some l \<Rightarrow> l))
                  (heap ?v (le_logs_queue ?s)))"
    unfolding q by (simp add: level_defs)
  have 4: "map_of (le_no_conf ?s) DEBUG = Some [LoggerEngineStderr 4]"
    by (simp add: LoggerEngine_init_def add_engine_def level_defs)
  have a: "LoggerEngine_send ?s ?w
      = (Inr (), ?w\<lparr>heap := (heap ?w)(0 := []), sent := ?calls\<rparr>)"
    using custom_table_exclusive [OF 1 2 3] by (simp add: q)
  have b: "fst (LoggerEngine_send ?s ?v) = Inl SinkError
      \<and> sent (snd (LoggerEngine_send ?s ?v)) = ?calls"
    using custom_table_exclusive [OF 1 2 5, THEN conjunct2, rule_format, of 0] by simp
  show ?thesis
    using 1 4 q a b by (simp add: Let_def)
qed

text \<open>
  C3, as claimed, fails: the default table of a new engine has no entry for ALERT, and a
  drained ALERT item reaches no sink.
\<close>

theorem default_table_alert_counterexample:
  "map_of (le_no_conf (fst (LoggerEngine_init 0 empty_world))) ALERT = None
   \<and> LoggerEngine_send (fst (LoggerEngine_init 0 empty_world))
        (empty_world\<lparr>heap := (heap empty_world)(0 := [(ALERT, PStr ''x'')])\<rparr>)
     = (Inr (), empty_world)"
proof -
  let ?s = "fst (LoggerEngine_init 0 empty_world)"
  let ?w = "empty_world\<lparr>heap := (heap empty_world)(0 := [(ALERT, PStr ''x'')])\<rparr>"
  have 1: "map_of (le_no_conf ?s) ALERT = None"
    by (simp add: init_fields) (simp add: level_defs)
  have c: "[] = concat (map (\<lambda>(level, message). map (\<lambda>e. (e, message))
                    (case map_of (le_no_conf ?s) level of None \<Rightarrow> [] | Some l \<Rightarrow> l))
                  [(ALERT, PStr ''x'')])"
    using 1 by simp
  have h: "heap ?w (le_logs_queue ?s) = [(ALERT, PStr ''x'')]"
    by (simp add: init_fields)
  have d: "LoggerEngine_send ?s ?w
      = (Inr (), ?w\<lparr>heap := (heap ?w)(le_logs_queue ?s := []), sent := sent ?w @ []\<rparr>)"
    by (rule drain_ok[OF send_item_default[OF init_fields(1)] h c]) simp
  have e: "?w\<lparr>heap := (heap ?w)(le_logs_queue ?s := []), sent := sent ?w @ []\<rparr> = empty_world"
    by (simp add: init_fields empty_world_def LoggerQueue_init_def fun_eq_iff)
  have "LoggerEngine_send ?s ?w = (Inr (), empty_world)"
    using d unfolding e .
  with 1 show ?thesis
    by (intro conjI)
qed

text \<open>
  C3, amended: on a new engine with no \<open>add_engine\<close> call, each of the six levels INFO,
  WARNING, NOTICE, DEBUG, ERROR, CRITICAL resolves by the default table to a non-empty
  list of sinks, and ALERT and EMERGENCY have no default entry. A drain routes every
  queued item by the default table: the calls of sinks it makes are, item by item in queue
  order, the message sent to the engines of the entry of the item's level in list order,
  and nothing for an ALERT or EMERGENCY item. When none of these calls raises, the drain
  makes all of them and empties the queue; the first call that raises ends the drain with
  \<open>SinkError\<close>, after exactly the calls up to it.
\<close>

theorem default_table_six_levels:
  assumes "s = fst (LoggerEngine_init r w0)"
    and "calls = concat (map (\<lambda>(level, message). map (\<lambda>e. (e, message))
                    (case map_of (le_no_conf s) level of None \<Rightarrow> [] | Some l \<Rightarrow> l))
                  (heap w (le_logs_queue s)))"
  shows "list_all (\<lambda>level. \<exists>l. map_of (le_no_conf s) level = Some l \<and> l \<noteq> [])
           [INFO, WARNING, NOTICE, DEBUG, ERROR, CRITICAL]
       \<and> list_all (\<lambda>level. map_of (le_no_conf s) level = None) [ALERT, EMERGENCY]
       \<and> ((\<forall>i < length calls. \<not> raises w (length (sent w) + i) (fst (calls ! i)) (snd (calls ! i))) \<longrightarrow>
            LoggerEngine_send s w
              = (Inr (), w\<lparr>heap := (heap w)(le_logs_queue s := []), sent := sent w @ calls\<rparr>))
       \<and> (\<forall>i < length calls.
            raises w (length (sent w) + i) (fst (calls ! i)) (snd (calls ! i))
            \<and> (\<forall>j < i. \<not> raises w (length (sent w) + j) (fst (calls ! j)) (snd (calls ! j))) \<longrightarrow>
            fst (LoggerEngine_send s w) = Inl SinkError
            \<and> sent (snd (LoggerEngine_send s w)) = sent w @ take (Suc i) calls)"
proof -
  have c: "le_conf s = None"
    using assms(1) by (simp add: init_fields)
  have six: "list_all (\<lambda>level. \<exists>l. map_of (le_no_conf s) level = Some l \<and> l \<noteq> [])
           [INFO, WARNING, NOTICE, DEBUG, ERROR, CRITICAL]"
    unfolding assms(1) init_fields by (simp add: level_defs)
  have two: "list_all (\<lambda>level. map_of (le_no_conf s) level = None) [ALERT, EMERGENCY]"
    unfolding assms(1) init_fields by (simp add: level_defs)
  have ok: "LoggerEngine_send s w
      = (Inr (), w\<lparr>heap := (heap w)(le_logs_queue s := []), sent := sent w @ calls\<rparr>)"
    if "\<forall>i < length calls. \<not> raises w (length (sent w) + i) (fst (calls ! i)) (snd (calls ! i))"
    using that by (rule drain_ok[OF send_item_default[OF c] refl assms(2)])
  have fail: "fst (LoggerEngine_send s w) = Inl SinkError
       \<and> sent (snd (LoggerEngine_send s w)) = sent w @ take (Suc i) calls"
    if "i < length calls"
      and "raises w (length (sent w) + i) (fst (calls ! i)) (snd (calls ! i))
            \<and> (\<forall>j < i. \<not> raises w (length (sent w) + j) (fst (calls ! j)) (snd (calls ! j)))"
    for i
    using that(2) by (intro drain_fail[OF send_item_default[OF c] refl assms(2) that(1)]) simp_all
  show ?thesis
    using six two ok fail by blast
qed

theorem default_table_six_levels_witness:
  "(let s = fst (LoggerEngine_init 0 empty_world);
        q = [(ERROR, PStr ''x''), (ALERT, PStr ''a''), (DEBUG, PStr ''d'')];
        w = empty_world\<lparr>heap := (heap empty_world)(0 := q)\<rparr>;
        v = failing_world\<lparr>heap := (heap failing_world)(0 := q)\<rparr>
    in heap w (le_logs_queue s) = q \<and> heap v (le_logs_queue s) = q
       \<and> map_of (le_no_conf s) ERROR = Some [LoggerEngineStdout 5, LoggerEngineStderr 6]
       \<and> map_of (le_no_conf s) ALERT = None
       \<and> LoggerEngine_send s w
           = (Inr (), w\<lparr>heap := (heap w)(0 := []),
                        sent := [(LoggerEngineStdout 5, PStr ''x''), (LoggerEngineStderr 6, PStr ''x''),
                                 (LoggerEngineStderr 4, PStr ''d'')]\<rparr>)
       \<and> fst (LoggerEngine_send s v) = Inl SinkError
       \<and> sent (snd (LoggerEngine_send s v)) = [(LoggerEngineStdout 5, PStr ''x'')])"
proof -
  let ?s = "fst (LoggerEngine_init 0 empty_world)"
  let ?q = "[(ERROR, PStr ''x''), (ALERT, PStr ''a''), (DEBUG, PStr ''d'')]"
  let ?w = "empty_world\<lparr>heap := (heap empty_world)(0 := ?q)\<rparr>"
  let ?v = "failing_world\<lparr>heap := (heap failing_world)(0 := ?q)\<rparr>"
  let ?calls = "[(LoggerEngineStdout 5, PStr ''x''), (LoggerEngineStderr 6, PStr ''x''),
                 (LoggerEngineStderr 4, PStr ''d'')]"
  have m: "map_of (le_no_conf ?s) ERROR = Some [LoggerEngineStdout 5, LoggerEngineStderr 6]"
      "map_of (le_no_conf ?s) ALERT = None"
      "map_of (le_no_conf ?s) DEBUG = Some [LoggerEngineStderr 4]"
    unfolding init_fields by (simp_all add: level_defs)
  have 3: "?calls = concat (map (\<lambda>(level, message). map (\<lambda>e. (e, message))
                    (case map_of (le_no_conf ?s) level of None \<Rightarrow> [] | Some l \<Rightarrow> l))
                  (heap ?w (le_logs_queue ?s)))"
    by (simp add: init_fields(2) m)
  have 5: "?calls = concat (map (\<lambda>(level, message). map (\<lambda>e. (e, message))
                    (case map_of (le_no_conf ?s) level of None \<Rightarrow> [] | Some l \<Rightarrow> l))
                  (heap ?v (le_logs_queue ?s)))"
    by (simp add: init_fields(2) m)
  have a: "LoggerEngine_send ?s ?w
      = (Inr (), ?w\<lparr>heap := (heap ?w)(0 := []), sent := ?calls\<rparr>)"
    using default_table_six_levels [OF refl 3] by (simp add: init_fields(2))
  have b: "fst (LoggerEngine_send ?s ?v) = Inl SinkError
      \<and> sent (snd (LoggerEngine_send ?s ?v)) = [(LoggerEngineStdout 5, PStr ''x'')]"
    using default_table_six_levels [OF refl 5, THEN conjunct2, THEN conjunct2, THEN conjunct2,
        rule_format, of 0]
    by simp
  show ?thesis
    using m(1,2) a b by (simp add: Let_def init_fields(2))
qed

section \<open>Registration properties\<close>

lemma add_engine_loop_upto:
  "n \<le> length l \<Longrightarrow>
   fold (\<lambda>i (l, test). if cls (l ! i) = cls e then (l[i := e], True) else (l, test)) [0..<n] (l, False)
   = (map (\<lambda>x. if cls x = cls e then e else x) (take n l) @ drop n l,
      \<exists>x \<in> set (take n l). cls x = cls e)"
proof (induction n)
  case 0
  then show ?case by simp
next
  case (Suc n)
  let ?g = "\<lambda>x. if cls x = cls e then e else x"
  let ?l = "map ?g (take n l) @ drop n l"
  have n: "n < length l"
    using Suc.prems by simp
  have nth: "?l ! n = l ! n"
    using n by (simp add: nth_append)
  have upd: "?l[n := e] = map ?g (take n l) @ e # drop (Suc n) l"
    using n by (simp add: list_update_append Cons_nth_drop_Suc[symmetric])
  have tk: "take (Suc n) l = take n l @ [l ! n]"
    using n by (simp add: take_Suc_conv_app_nth)
  have dr: "drop n l = l ! n # drop (Suc n) l"
    using n by (simp add: Cons_nth_drop_Suc)
  show ?case
  proof (cases "cls (l ! n) = cls e")
    case True
    then show ?thesis
      using Suc.IH n nth upd tk by simp
  next
    case False
    then show ?thesis
      using Suc.IH n nth tk dr by simp
  qed
qed

lemma add_engine_loop_eq:
  "add_engine_loop e l = (map (\<lambda>x. if cls x = cls e then e else x) l, \<exists>x \<in> set l. cls x = cls e)"
  using add_engine_loop_upto[of "length l" l e] by (simp add: add_engine_loop_def)

lemma map_of_dict_set: "map_of (dict_set k v d) = (map_of d)(k \<mapsto> v)"
  by (induction d) (auto simp: fun_eq_iff)

lemma keys_dict_set_in: "k \<in> fst ` set d \<Longrightarrow> map fst (dict_set k v d) = map fst d"
  by (induction d) force+

lemma keys_dict_set_out: "k \<notin> fst ` set d \<Longrightarrow> map fst (dict_set k v d) = map fst d @ [k]"
  by (induction d) auto

lemma distinct_dict_set: "distinct (map fst d) \<Longrightarrow> distinct (map fst (dict_set k v d))"
  by (cases "k \<in> fst ` set d") (simp_all add: keys_dict_set_in keys_dict_set_out)

lemma list_all_dict_set: "P (k, v) \<Longrightarrow> list_all P d \<Longrightarrow> list_all P (dict_set k v d)"
  by (induction d) auto

lemma map_of_list_all: "list_all P d \<Longrightarrow> map_of d k = Some v \<Longrightarrow> P (k, v)"
  by (induction d) (auto split: if_splits)

lemma cls_replace: "map cls (map (\<lambda>x. if cls x = cls e then e else x) l) = map cls l"
  by (induction l) auto

lemma add_engine_inv:
  assumes "conf_inv s"
  shows "conf_inv (snd (add_engine log_level engine s))"
proof (cases "is_str log_level")
  case False
  then show ?thesis using assms by (simp add: add_engine_def)
next
  case str: True
  show ?thesis
  proof (cases engine)
    case (Obj_Other v)
    then show ?thesis using assms by (simp add: add_engine_def)
  next
    case (Obj_Engine e)
    show ?thesis
    proof (cases "le_conf s")
      case None
      then show ?thesis
        using str Obj_Engine by (simp add: add_engine_def conf_inv_def)
    next
      case (Some conf)
      have inv: "distinct (map fst conf)" "list_all (\<lambda>(k, l). l \<noteq> [] \<and> distinct (map cls l)) conf"
        using assms Some by (simp_all add: conf_inv_def)
      show ?thesis
      proof (cases "map_of conf log_level")
        case None
        then show ?thesis
          using str Obj_Engine Some inv
          by (simp add: add_engine_def conf_inv_def distinct_dict_set list_all_dict_set)
      next
        case (Some l)
        have l: "l \<noteq> []" "distinct (map cls l)"
          using map_of_list_all[OF inv(2) Some] by simp_all
        let ?l' = "map (\<lambda>x. if cls x = cls e then e else x) l"
        let ?new = "if \<not> (\<exists>x \<in> set l. cls x = cls e) then ?l' @ [e] else ?l'"
        have new: "?new \<noteq> [] \<and> distinct (map cls ?new)"
        proof (cases "\<exists>x \<in> set l. cls x = cls e")
          case True
          then show ?thesis using l by (simp add: cls_replace del: map_map)
        next
          case False
          then have "?l' = l"
            by (simp add: map_idI)
          then show ?thesis using l False by auto
        qed
        have "le_conf (snd (add_engine log_level engine s)) = Some (dict_set log_level ?new conf)"
          using str Obj_Engine \<open>le_conf s = Some conf\<close> Some
          by (simp add: add_engine_def add_engine_loop_eq)
        then show ?thesis
          using inv new by (simp add: conf_inv_def distinct_dict_set list_all_dict_set)
      qed
    qed
  qed
qed

lemma add_engines_inv: "conf_inv s \<Longrightarrow> conf_inv (add_engines calls s)"
  by (induction calls arbitrary: s) (auto simp: add_engine_inv)

lemma init_inv: "conf_inv (fst (LoggerEngine_init r w))"
  by (simp add: conf_inv_def LoggerEngine_init_def)

lemma add_engine_Some:
  assumes "is_str level"
  shows "\<exists>conf l. le_conf (snd (add_engine level (Obj_Engine e) s)) = Some conf
           \<and> map_of conf level = Some l \<and> e \<in> set l"
proof (cases "le_conf s")
  case None
  then show ?thesis using assms by (simp add: add_engine_def)
next
  case (Some conf)
  show ?thesis
  proof (cases "map_of conf level")
    case None
    then show ?thesis using assms Some by (simp add: add_engine_def map_of_dict_set)
  next
    case l: (Some l)
    show ?thesis
    proof (cases "\<exists>x \<in> set l. cls x = cls e")
      case True
      then have "e \<in> set (map (\<lambda>x. if cls x = cls e then e else x) l)"
        by (auto simp: image_iff)
      then show ?thesis
        using assms Some l True by (simp add: add_engine_def add_engine_loop_eq map_of_dict_set)
    next
      case False
      then show ?thesis
        using assms Some l by (simp add: add_engine_def add_engine_loop_eq map_of_dict_set)
    qed
  qed
qed

lemma add_engine_existing:
  assumes "is_str level" "le_conf s = Some conf" "map_of conf level = Some l"
    and "x \<in> set l" "cls x = cls e"
  shows "le_conf (snd (add_engine level (Obj_Engine e) s))
       = Some (dict_set level (map (\<lambda>x. if cls x = cls e then e else x) l) conf)"
proof -
  have "\<exists>x \<in> set l. cls x = cls e"
    using assms(4,5) by blast
  then show ?thesis
    using assms(1-3) by (simp add: add_engine_def add_engine_loop_eq)
qed

lemma replace_distinct:
  assumes "distinct (map cls l)" "i < length l" "cls (l ! i) = cls e"
  shows "map (\<lambda>x. if cls x = cls e then e else x) l = l[i := e]"
proof (rule nth_equalityI)
  show "length (map (\<lambda>x. if cls x = cls e then e else x) l) = length (l[i := e])"
    by simp
next
  fix j
  assume "j < length (map (\<lambda>x. if cls x = cls e then e else x) l)"
  then have j: "j < length l"
    by simp
  show "map (\<lambda>x. if cls x = cls e then e else x) l ! j = l[i := e] ! j"
  proof (cases "j = i")
    case True
    then show ?thesis using assms(2,3) by simp
  next
    case False
    have "map cls l ! j \<noteq> map cls l ! i"
      using nth_eq_iff_index_eq[OF assms(1), of j i] assms(2) j False by simp
    then have "cls (l ! j) \<noteq> cls e"
      using assms(2,3) j by simp
    then show ?thesis using j False by simp
  qed
qed

lemma one_of_class:
  "distinct (map f l) \<Longrightarrow> c \<in> f ` set l \<Longrightarrow> length (filter (\<lambda>x. f x = c) l) = 1"
proof (induction l)
  case Nil
  then show ?case by simp
next
  case (Cons a l)
  show ?case
  proof (cases "f a = c")
    case True
    then have "c \<notin> f ` set l"
      using Cons.prems(1) by auto
    then have "filter (\<lambda>x. f x = c) l = []"
      by (auto simp: filter_empty_conv)
    then show ?thesis using True by simp
  next
    case False
    then show ?thesis using Cons by auto
  qed
qed

text \<open>
  C10: in every engine state reached from a new engine by a finite sequence of
  \<open>add_engine\<close> calls, every level present in the custom table maps to a non-empty list
  of engines whose classes are pairwise distinct.
\<close>

theorem custom_table_distinct_classes:
  "case le_conf (add_engines calls (fst (LoggerEngine_init r w))) of
     None \<Rightarrow> True
   | Some conf \<Rightarrow> \<forall>level l. map_of conf level = Some l \<longrightarrow> l \<noteq> [] \<and> distinct (map cls l)"
proof -
  have "conf_inv (add_engines calls (fst (LoggerEngine_init r w)))"
    by (rule add_engines_inv [OF init_inv])
  then show ?thesis
    by (auto simp: conf_inv_def split: option.splits dest: map_of_list_all)
qed

theorem custom_table_distinct_classes_witness:
  "le_conf (add_engines
      [(ERROR, Obj_Engine (ILoggerEngine ''LoggerEngineFile'' 10)),
       (ERROR, Obj_Engine (ILoggerEngine ''LoggerEngineFile'' 11)),
       (PInt 3, Obj_Engine (ILoggerEngine ''LoggerEngineFile'' 12)),
       (ERROR, Obj_Engine (ILoggerEngine ''LoggerEngineSyslog'' 13)),
       (INFO, Obj_Other PNone)]
      (fst (LoggerEngine_init 0 empty_world)))
     = Some [(ERROR, [ILoggerEngine ''LoggerEngineFile'' 11, ILoggerEngine ''LoggerEngineSyslog'' 13])]
   \<and> [ILoggerEngine ''LoggerEngineFile'' 11, ILoggerEngine ''LoggerEngineSyslog'' 13] \<noteq> []
   \<and> distinct (map cls [ILoggerEngine ''LoggerEngineFile'' 11, ILoggerEngine ''LoggerEngineSyslog'' 13])"
proof -
  let ?calls = "[(ERROR, Obj_Engine (ILoggerEngine ''LoggerEngineFile'' 10)),
       (ERROR, Obj_Engine (ILoggerEngine ''LoggerEngineFile'' 11)),
       (PInt 3, Obj_Engine (ILoggerEngine ''LoggerEngineFile'' 12)),
       (ERROR, Obj_Engine (ILoggerEngine ''LoggerEngineSyslog'' 13)),
       (INFO, Obj_Other PNone)]"
  let ?l = "[ILoggerEngine ''LoggerEngineFile'' 11, ILoggerEngine ''LoggerEngineSyslog'' 13]"
  have e: "le_conf (add_engines ?calls (fst (LoggerEngine_init 0 empty_world)))
      = Some [(ERROR, ?l)]"
    by (simp add: LoggerEngine_init_def add_engine_def add_engine_loop_eq level_defs)
  have "\<forall>level l. map_of [(ERROR, ?l)] level = Some l \<longrightarrow> l \<noteq> [] \<and> distinct (map cls l)"
    using custom_table_distinct_classes [of ?calls 0 "empty_world"]
    unfolding e by simp
  then have "map_of [(ERROR, ?l)] ERROR = Some ?l \<longrightarrow> ?l \<noteq> [] \<and> distinct (map cls ?l)"
    by blast
  then show ?thesis
    using e by simp
qed

text \<open>
  C7: in every such state, for every string level and engines \<open>e1\<close>, \<open>e2\<close> of the same
  class, \<open>add_engine(level, e1)\<close> then \<open>add_engine(level, e2)\<close> leaves \<open>e2\<close> at the list
  position that \<open>e1\<close> had after the first call, the rest of the list as it was, and
  exactly one engine of that class registered for the level.
\<close>

theorem add_engine_replaces_in_place:
  assumes "s = add_engines calls (fst (LoggerEngine_init r w))"
    and "is_str level" "cls e1 = cls e2"
    and "s1 = snd (add_engine level (Obj_Engine e1) s)"
    and "s2 = snd (add_engine level (Obj_Engine e2) s1)"
  shows "\<exists>conf1 conf2 l1 i.
           le_conf s1 = Some conf1 \<and> map_of conf1 level = Some l1
         \<and> i < length l1 \<and> l1 ! i = e1
         \<and> le_conf s2 = Some conf2 \<and> map_of conf2 level = Some (l1[i := e2])
         \<and> length (filter (\<lambda>x. cls x = cls e2) (l1[i := e2])) = 1"
proof -
  have "conf_inv s"
    unfolding assms(1) by (rule add_engines_inv [OF init_inv])
  then have inv1: "conf_inv s1"
    unfolding assms(4) by (rule add_engine_inv)
  obtain conf1 l1 where c1: "le_conf s1 = Some conf1" "map_of conf1 level = Some l1" "e1 \<in> set l1"
    using add_engine_Some[OF assms(2), of e1 s] assms(4) by blast
  obtain i where i: "i < length l1" "l1 ! i = e1"
    using c1(3) by (auto simp: in_set_conv_nth)
  have d: "distinct (map cls l1)"
    using inv1 c1(1,2) by (auto simp: conf_inv_def dest: map_of_list_all)
  let ?l2 = "map (\<lambda>x. if cls x = cls e2 then e2 else x) l1"
  have c2: "le_conf s2 = Some (dict_set level ?l2 conf1)"
    unfolding assms(5) by (rule add_engine_existing[OF assms(2) c1 assms(3)])
  have eq: "?l2 = l1[i := e2]"
    using d i assms(3) by (intro replace_distinct) simp_all
  have d2: "distinct (map cls (l1[i := e2]))"
    using d by (simp add: eq[symmetric] cls_replace del: map_map)
  have "e2 \<in> set (l1[i := e2])"
    using i(1) by (simp add: set_update_memI)
  then have "cls e2 \<in> cls ` set (l1[i := e2])"
    by blast
  then have one: "length (filter (\<lambda>x. cls x = cls e2) (l1[i := e2])) = 1"
    using d2 by (rule one_of_class[rotated])
  show ?thesis
    using c1(1,2) i c2 eq one by (auto simp: map_of_dict_set)
qed

theorem add_engine_replaces_in_place_witness:
  "is_str ERROR
   \<and> cls (ILoggerEngine ''LoggerEngineFile'' 20) = cls (ILoggerEngine ''LoggerEngineFile'' 21)
   \<and> le_conf (snd (add_engine ERROR (Obj_Engine (ILoggerEngine ''LoggerEngineFile'' 20))
        (add_engines [(ERROR, Obj_Engine (ILoggerEngine ''LoggerEngineSyslog'' 13))]
           (fst (LoggerEngine_init 0 empty_world)))))
       = Some [(ERROR, [ILoggerEngine ''LoggerEngineSyslog'' 13, ILoggerEngine ''LoggerEngineFile'' 20])]
   \<and> le_conf (snd (add_engine ERROR (Obj_Engine (ILoggerEngine ''LoggerEngineFile'' 21))
        (snd (add_engine ERROR (Obj_Engine (ILoggerEngine ''LoggerEngineFile'' 20))
          (add_engines [(ERROR, Obj_Engine (ILoggerEngine ''LoggerEngineSyslog'' 13))]
             (fst (LoggerEngine_init 0 empty_world)))))))
       = Some [(ERROR, [ILoggerEngine ''LoggerEngineSyslog'' 13, ILoggerEngine ''LoggerEngineFile'' 21])]"
proof -
  let ?s = "add_engines [(ERROR, Obj_Engine (ILoggerEngine ''LoggerEngineSyslog'' 13))]
           (fst (LoggerEngine_init 0 empty_world))"
  let ?s1 = "snd (add_engine ERROR (Obj_Engine (ILoggerEngine ''LoggerEngineFile'' 20)) ?s)"
  let ?s2 = "snd (add_engine ERROR (Obj_Engine (ILoggerEngine ''LoggerEngineFile'' 21)) ?s1)"
  have h1: "is_str ERROR"
    by (simp add: level_defs)
  have h2: "cls (ILoggerEngine ''LoggerEngineFile'' 20) = cls (ILoggerEngine ''LoggerEngineFile'' 21)"
    by simp
  have a: "le_conf ?s1
      = Some [(ERROR, [ILoggerEngine ''LoggerEngineSyslog'' 13, ILoggerEngine ''LoggerEngineFile'' 20])]"
    by (simp add: LoggerEngine_init_def add_engine_def add_engine_loop_eq level_defs)
  obtain conf1 conf2 l1 i where r:
      "le_conf ?s1 = Some conf1" "map_of conf1 ERROR = Some l1" "i < length l1"
      "l1 ! i = ILoggerEngine ''LoggerEngineFile'' 20"
      "le_conf ?s2 = Some conf2"
      "map_of conf2 ERROR = Some (l1[i := ILoggerEngine ''LoggerEngineFile'' 21])"
    using add_engine_replaces_in_place [OF refl h1 h2 refl refl,
        of "[(ERROR, Obj_Engine (ILoggerEngine ''LoggerEngineSyslog'' 13))]" 0
           "empty_world"]
    by blast
  have b: "le_conf ?s2
      = Some [(ERROR, [ILoggerEngine ''LoggerEngineSyslog'' 13, ILoggerEngine ''LoggerEngineFile'' 21])]"
    by (simp add: LoggerEngine_init_def add_engine_def add_engine_loop_eq level_defs)
  show ?thesis
    using h1 h2 a b r by simp
qed

section \<open>Worker properties\<close>










lemma debug_message_flag [simp]:
  "debug_message (t\<lparr>th_stop_event := b\<rparr>) txt w = debug_message t txt w"
  by (simp add: debug_message_def)

lemma th_run_step [simp]: "th (run_step s) = th s"
  by (auto simp: run_step_def engine_send_def split: place.splits option.splits prod.splits sum.splits)

lemma th_run_steps [simp]: "th (run_steps n s) = th s"
  by (induction n arbitrary: s) simp_all












end
